theory Spec2Isabelle
  imports Main "HOL-Library.Word"
begin

unbundle bit_operations_syntax

section \<open>Go values used by main.go\<close>

text \<open>
  The program decodes the fixed part of a TCP header held in a Go byte slice. A Go
  function either returns or stops with a runtime panic; main.go has no \<open>recover\<close>, so a
  panic ends the program. The two panics the accessors can raise are the failed bounds
  check of a slice expression \<open>s[lo:hi]\<close> and the failed bounds check of an index
  expression \<open>s[i]\<close>. A call is modelled as a value of \<open>panic + 'a\<close>.
\<close>

type_synonym byte = "8 word"
type_synonym uint8 = "8 word"
type_synonym uint16 = "16 word"
type_synonym uint32 = "32 word"

datatype panic = SliceBoundsOutOfRange | IndexOutOfRange

definition and_then :: "panic + 'a \<Rightarrow> ('a \<Rightarrow> panic + 'b) \<Rightarrow> panic + 'b" where
  "and_then r f = (case r of Inl e \<Rightarrow> Inl e | Inr v \<Rightarrow> f v)"

text \<open>
  A slice of bytes has a length and a capacity. \<open>elems\<close> holds the elements below the
  length, \<open>spare\<close> the elements of the backing array between the length and the
  capacity: a slice expression may reach them, an index expression may not. The
  composite literal of \<open>main\<close> builds a slice with no spare element.
\<close>

record byte_slice =
  elems :: "byte list"
  spare :: "byte list"

definition len :: "byte_slice \<Rightarrow> nat" where
  "len s = length (elems s)"

definition cap :: "byte_slice \<Rightarrow> nat" where
  "cap s = length (elems s) + length (spare s)"

text \<open>The slice expression \<open>s[lo:hi]\<close> on a byte slice: it needs \<open>lo \<le> hi \<le> cap s\<close>.\<close>

definition reslice :: "byte_slice \<Rightarrow> nat \<Rightarrow> nat \<Rightarrow> panic + byte_slice" where
  "reslice s lo hi =
     (if lo \<le> hi \<and> hi \<le> cap s
      then Inr \<lparr>elems = take (hi - lo) (drop lo (elems s @ spare s)),
                spare = drop hi (elems s @ spare s)\<rparr>
      else Inl SliceBoundsOutOfRange)"

text \<open>The index expression \<open>s[i]\<close> on a byte slice: it needs \<open>i < len s\<close>.\<close>

definition index :: "byte_slice \<Rightarrow> nat \<Rightarrow> panic + byte" where
  "index s i = (if i < len s then Inr (elems s ! i) else Inl IndexOutOfRange)"

text \<open>The slice expression \<open>s[lo:hi]\<close> on a string: it needs \<open>lo \<le> hi \<le> length s\<close>.\<close>

definition substr :: "string \<Rightarrow> nat \<Rightarrow> nat \<Rightarrow> panic + string" where
  "substr s lo hi =
     (if lo \<le> hi \<and> hi \<le> length s then Inr (take (hi - lo) (drop lo s))
      else Inl SliceBoundsOutOfRange)"

section \<open>The library functions main.go calls\<close>

subsection \<open>encoding/binary\<close>

text \<open>
  \<open>binary.BigEndian.Uint16\<close> reads \<open>b[1]\<close> first (the bounds check) and returns
  \<open>uint16(b[1]) | uint16(b[0])<<8\<close>; \<open>Uint32\<close> does the same with four bytes.
\<close>

definition Uint16 :: "byte_slice \<Rightarrow> panic + uint16" where
  "Uint16 b =
     and_then (index b 1) (\<lambda>b1.
     and_then (index b 0) (\<lambda>b0.
     Inr (ucast b1 OR push_bit 8 (ucast b0))))"

definition Uint32 :: "byte_slice \<Rightarrow> panic + uint32" where
  "Uint32 b =
     and_then (index b 3) (\<lambda>b3.
     and_then (index b 2) (\<lambda>b2.
     and_then (index b 1) (\<lambda>b1.
     and_then (index b 0) (\<lambda>b0.
     Inr (((ucast b3 OR push_bit 8 (ucast b2)) OR push_bit 16 (ucast b1))
          OR push_bit 24 (ucast b0))))))"

subsection \<open>fmt: the verb b\<close>

text \<open>
  \<open>fmt.Sprintf\<close> with the verbs \<open>%b\<close>, \<open>%.1b\<close> and \<open>%.8b\<close> on a byte hands the value,
  widened to uint64, to the integer formatter. The formatter writes the binary digits
  of the value from the right, at least one digit, and then puts zeros in front while
  the precision exceeds the number of digits. A precision is a minimum number of
  digits: it never removes one. With precision 0 the value 0 prints as the empty string.
\<close>

definition bit_char :: "nat \<Rightarrow> char" where
  "bit_char d = (if d = 0 then CHR ''0'' else CHR ''1'')"

fun binary_digits :: "nat \<Rightarrow> string" where
  "binary_digits u =
     (if 2 \<le> u then binary_digits (u div 2) @ [bit_char (u mod 2)] else [bit_char u])"

declare binary_digits.simps [simp del]

definition fmtInteger :: "nat option \<Rightarrow> nat \<Rightarrow> string" where
  "fmtInteger precision u =
     (let prec = (case precision of None \<Rightarrow> 0 | Some n \<Rightarrow> n)
      in if precision = Some 0 \<and> u = 0 then []
         else let ds = binary_digits u
              in replicate (prec - length ds) (CHR ''0'') @ ds)"

definition Sprintf_b :: "nat option \<Rightarrow> byte \<Rightarrow> string" where
  "Sprintf_b precision x = fmtInteger precision (unat x)"

subsection \<open>strconv.ParseInt\<close>

text \<open>
  \<open>strconv.ParseInt(s, base, bitSize)\<close> returns a value and an error. main.go calls it
  with base 2 and drops the error, so the value returned beside each error matters: 0
  for a syntax error, the nearest representable value for a range error. The branch of
  the library for base 0 (a base read from the prefix of the string) is not needed by
  the program: a base outside 2..36 is reported as \<open>ErrBase\<close> here.
\<close>

datatype num_error = ErrSyntax | ErrRange | ErrBase | ErrBitSize

definition digit_value :: "char \<Rightarrow> nat option" where
  "digit_value c =
     (let n = (of_char c :: nat)
      in if 48 \<le> n \<and> n \<le> 57 then Some (n - 48)
         else if 97 \<le> n \<and> n \<le> 122 then Some (n - 97 + 10)
         else if 65 \<le> n \<and> n \<le> 90 then Some (n - 65 + 10)
         else None)"

text \<open>
  The digit loop of \<open>ParseUint\<close>. \<open>n\<close> is a uint64: the library tests \<open>n \<ge> cutoff\<close>
  before the multiplication and \<open>n1 < n\<close> (the addition wrapped) or \<open>n1 > maxVal\<close>
  after the addition; on \<open>nat\<close> the wrapped addition is \<open>2 ^ 64 \<le> n1\<close>.
\<close>

fun parse_digits :: "nat \<Rightarrow> nat \<Rightarrow> nat \<Rightarrow> string \<Rightarrow> nat \<times> num_error option" where
  "parse_digits base maxVal n [] = (n, None)"
| "parse_digits base maxVal n (c # cs) =
     (case digit_value c of
        None \<Rightarrow> (0, Some ErrSyntax)
      | Some d \<Rightarrow>
          if base \<le> d then (0, Some ErrSyntax)
          else if (2 ^ 64 - 1) div base + 1 \<le> n then (maxVal, Some ErrRange)
          else let n1 = n * base + d
               in if 2 ^ 64 \<le> n1 \<or> maxVal < n1 then (maxVal, Some ErrRange)
                  else parse_digits base maxVal n1 cs)"

definition ParseUint :: "string \<Rightarrow> nat \<Rightarrow> nat \<Rightarrow> nat \<times> num_error option" where
  "ParseUint s base bitSize =
     (if s = [] then (0, Some ErrSyntax)
      else if \<not> (2 \<le> base \<and> base \<le> 36) then (0, Some ErrBase)
      else let bits = (if bitSize = 0 then 64 else bitSize)
           in if 64 < bits then (0, Some ErrBitSize)
              else parse_digits base (2 ^ bits - 1) 0 s)"

definition ParseInt :: "string \<Rightarrow> nat \<Rightarrow> nat \<Rightarrow> int \<times> num_error option" where
  "ParseInt s base bitSize =
     (if s = [] then (0, Some ErrSyntax)
      else let neg = (hd s = CHR ''-'');
               s1 = (if hd s = CHR ''+'' \<or> hd s = CHR ''-'' then tl s else s);
               (un, err) = ParseUint s1 base bitSize
           in if err \<noteq> None \<and> err \<noteq> Some ErrRange then (0, err)
              else let bits = (if bitSize = 0 then 64 else bitSize);
                       cutoff = (2 :: nat) ^ (bits - 1)
                   in if \<not> neg \<and> cutoff \<le> un then (int cutoff - 1, Some ErrRange)
                      else if neg \<and> cutoff < un then (- int cutoff, Some ErrRange)
                      else (if neg then - int un else int un, None))"

section \<open>main.go\<close>

record Packet =
  Header :: byte_slice

record flags =
  SYN :: bool
  ACK :: bool
  RST :: bool
  FIN :: bool
  PSH :: bool
  URG :: bool

definition SourcePort :: "Packet \<Rightarrow> panic + uint16" where
  "SourcePort p = and_then (reslice (Header p) 0 2) Uint16"

definition DestinationPort :: "Packet \<Rightarrow> panic + uint16" where
  "DestinationPort p = and_then (reslice (Header p) 2 4) Uint16"

definition SequenceNumber :: "Packet \<Rightarrow> panic + uint32" where
  "SequenceNumber p = and_then (reslice (Header p) 4 8) Uint32"

definition AckNumber :: "Packet \<Rightarrow> panic + uint32" where
  "AckNumber p = and_then (reslice (Header p) 8 12) Uint32"

text \<open>
  \<open>DO\<close> formats byte 12 with \<open>%b\<close>, takes the characters 0 to 3 of the text, parses them
  in base 2 with bit size 5 and converts the result to \<open>uint8\<close>.
\<close>

definition DO :: "Packet \<Rightarrow> panic + uint8" where
  "DO p =
     and_then (reslice (Header p) 12 14) (\<lambda>b.
     and_then (index b 0) (\<lambda>x.
     let do = Sprintf_b None x in
     and_then (substr do 0 4) (\<lambda>s.
     let (output, _) = ParseInt s 2 5 in
     Inr (word_of_int output))))"

text \<open>\<open>RSV\<close> does the same with the characters 4 to 6 and bit size 4.\<close>

definition RSV :: "Packet \<Rightarrow> panic + uint8" where
  "RSV p =
     and_then (reslice (Header p) 12 14) (\<lambda>b.
     and_then (index b 0) (\<lambda>x.
     let rs = Sprintf_b None x in
     and_then (substr rs 4 7) (\<lambda>s.
     let (output, _) = ParseInt s 2 4 in
     Inr (word_of_int output))))"

text \<open>
  \<open>Flags\<close> formats byte 12 with \<open>%.1b\<close> and byte 13 with \<open>%.8b\<close>, starts from six false
  flags and sets a flag when the character it looks at is not \<open>0\<close>: character 7 of the
  first text for SYN, characters 0 to 4 of the second for ACK, RST, FIN, PSH and URG.
\<close>

definition Flags :: "Packet \<Rightarrow> panic + flags" where
  "Flags p =
     and_then (reslice (Header p) 12 14) (\<lambda>b.
     and_then (index b 0) (\<lambda>x.
     let fg1 = Sprintf_b (Some 1) x in
     and_then (reslice (Header p) 12 14) (\<lambda>b'.
     and_then (index b' 1) (\<lambda>y.
     let fg2 = Sprintf_b (Some 8) y;
         data = \<lparr>SYN = False, ACK = False, RST = False, FIN = False, PSH = False,
                 URG = False\<rparr> in
     and_then (substr fg1 7 8) (\<lambda>c.
     let data = (if c \<noteq> ''0'' then data\<lparr>SYN := True\<rparr> else data) in
     and_then (substr fg2 0 1) (\<lambda>c.
     let data = (if c \<noteq> ''0'' then data\<lparr>ACK := True\<rparr> else data) in
     and_then (substr fg2 1 2) (\<lambda>c.
     let data = (if c \<noteq> ''0'' then data\<lparr>RST := True\<rparr> else data) in
     and_then (substr fg2 2 3) (\<lambda>c.
     let data = (if c \<noteq> ''0'' then data\<lparr>FIN := True\<rparr> else data) in
     and_then (substr fg2 3 4) (\<lambda>c.
     let data = (if c \<noteq> ''0'' then data\<lparr>PSH := True\<rparr> else data) in
     and_then (substr fg2 4 5) (\<lambda>c.
     let data = (if c \<noteq> ''0'' then data\<lparr>URG := True\<rparr> else data) in
     Inr data))))))))))"

definition Window :: "Packet \<Rightarrow> panic + uint16" where
  "Window p = and_then (reslice (Header p) 14 16) Uint16"

definition Checksum :: "Packet \<Rightarrow> panic + uint16" where
  "Checksum p = and_then (reslice (Header p) 16 18) Uint16"

definition UrgentPointer :: "Packet \<Rightarrow> panic + uint16" where
  "UrgentPointer p = and_then (reslice (Header p) 18 20) Uint16"

text \<open>The packet that \<open>main\<close> builds and prints.\<close>

definition sample_bytes :: "byte list" where
  "sample_bytes =
     [0xb7, 0x4e, 0x01, 0xbb, 0xb1, 0x46, 0xa4, 0x61, 0x00, 0x00,
      0x00, 0x00, 0xa0, 0x02, 0xfa, 0xf0, 0x9b, 0xba, 0x00, 0x00]"

definition packet_of :: "byte list \<Rightarrow> Packet" where
  "packet_of bs = \<lparr>Header = \<lparr>elems = bs, spare = []\<rparr>\<rparr>"

definition sample_packet :: Packet where
  "sample_packet = packet_of sample_bytes"

text \<open>
  Further packets: the sample with bytes 12 and 13 replaced, the first 19 bytes of the
  sample, and the sample followed by a four-byte option.
\<close>

definition header_with :: "byte \<Rightarrow> byte \<Rightarrow> Packet" where
  "header_with b12 b13 = packet_of (sample_bytes[12 := b12, 13 := b13])"

definition short_packet :: Packet where
  "short_packet = packet_of (take 19 sample_bytes)"

definition long_packet :: Packet where
  "long_packet = packet_of (sample_bytes @ [0x02, 0x04, 0x05, 0xb4])"

text \<open>A buffer of 20 zero bytes and a buffer of one byte.\<close>

definition zero_packet :: Packet where
  "zero_packet = packet_of (replicate 20 0)"

definition tiny_packet :: Packet where
  "tiny_packet = packet_of [0xb7]"

section \<open>The layout the specification documents\<close>

text \<open>
  The specification describes each field by its place in the header. The bytes of the
  range \<open>[lo, hi)\<close> and their unsigned big-endian value:
\<close>

definition byte_range :: "byte list \<Rightarrow> nat \<Rightarrow> nat \<Rightarrow> byte list" where
  "byte_range bs lo hi = take (hi - lo) (drop lo bs)"

definition big_endian :: "byte list \<Rightarrow> nat" where
  "big_endian bs = foldl (\<lambda>n b. n * 256 + unat b) 0 bs"

text \<open>
  The specification counts the bits of a byte from the most significant one, bit 0, to
  the least significant one, bit 7. The data offset is the top four bits of byte 12, the
  reserved field the bits 4, 5 and 6.
\<close>

definition msb_bit :: "byte \<Rightarrow> nat \<Rightarrow> bool" where
  "msb_bit b i = bit b (7 - i)"

definition spec_DataOffset :: "byte \<Rightarrow> uint8" where
  "spec_DataOffset b = drop_bit 4 b"

definition spec_Reserved :: "byte \<Rightarrow> uint8" where
  "spec_Reserved b = take_bit 3 (drop_bit 1 b)"

text \<open>
  The inverse packing of the round-trip property: the data offset in the top nibble of
  byte 12, the reserved field in bits 4 to 6, SYN in the least significant bit; ACK, RST,
  FIN, PSH and URG in the top five bits of byte 13.
\<close>

definition pack_byte12 :: "nat \<Rightarrow> nat \<Rightarrow> bool \<Rightarrow> byte" where
  "pack_byte12 dataOffset reserved syn =
     of_nat (dataOffset * 16 + reserved * 2 + (if syn then 1 else 0))"

definition pack_byte13 :: "bool \<Rightarrow> bool \<Rightarrow> bool \<Rightarrow> bool \<Rightarrow> bool \<Rightarrow> byte" where
  "pack_byte13 ack rst fin psh urg =
     of_nat ((if ack then 128 else 0) + (if rst then 64 else 0) + (if fin then 32 else 0)
             + (if psh then 16 else 0) + (if urg then 8 else 0))"

section \<open>Slices and the error plumbing\<close>

lemma and_then_Inr [simp]: "and_then (Inr v) f = f v"
  by (simp add: and_then_def)

lemma and_then_Inl [simp]: "and_then (Inl e) f = Inl e"
  by (simp add: and_then_def)

lemma reslice_elems:
  "lo \<le> hi \<Longrightarrow> hi \<le> length (elems s) \<Longrightarrow>
   reslice s lo hi =
     Inr \<lparr>elems = take (hi - lo) (drop lo (elems s)), spare = drop hi (elems s) @ spare s\<rparr>"
  by (simp add: reslice_def cap_def)

lemma reslice_beyond_capacity:
  "spare s = [] \<Longrightarrow> length (elems s) < hi \<Longrightarrow> reslice s lo hi = Inl SliceBoundsOutOfRange"
  by (simp add: reslice_def cap_def)

lemma Uint16_reslice:
  assumes "hi = lo + 2" "hi \<le> length (elems s)"
  shows "and_then (reslice s lo hi) Uint16 =
         Inr (ucast (elems s ! (lo + 1)) OR push_bit 8 (ucast (elems s ! lo)))"
  using assms by (simp add: reslice_elems Uint16_def index_def len_def)

lemma Uint32_reslice:
  assumes "hi = lo + 4" "hi \<le> length (elems s)"
  shows "and_then (reslice s lo hi) Uint32 =
         Inr (((ucast (elems s ! (lo + 3)) OR push_bit 8 (ucast (elems s ! (lo + 2))))
              OR push_bit 16 (ucast (elems s ! (lo + 1)))) OR push_bit 24 (ucast (elems s ! lo)))"
  using assms by (simp add: reslice_elems Uint32_def index_def len_def)

lemma byte12:
  assumes "14 \<le> length (elems s)"
  shows "and_then (reslice s 12 14) (\<lambda>b. and_then (index b 0) f) = f (elems s ! 12)"
  using assms by (simp add: reslice_elems index_def len_def)

lemma byte13:
  assumes "14 \<le> length (elems s)"
  shows "and_then (reslice s 12 14) (\<lambda>b. and_then (index b 1) f) = f (elems s ! 13)"
  using assms by (simp add: reslice_elems index_def len_def)

subsection \<open>The accessors on a header of at least 20 bytes\<close>

lemma SourcePort_header:
  "20 \<le> len (Header p) \<Longrightarrow>
   SourcePort p =
     Inr (ucast (elems (Header p) ! 1) OR push_bit 8 (ucast (elems (Header p) ! 0)))"
  using Uint16_reslice [of 2 0 "Header p"] by (simp add: SourcePort_def len_def)

lemma DestinationPort_header:
  "20 \<le> len (Header p) \<Longrightarrow>
   DestinationPort p =
     Inr (ucast (elems (Header p) ! 3) OR push_bit 8 (ucast (elems (Header p) ! 2)))"
  using Uint16_reslice [of 4 2 "Header p"] by (simp add: DestinationPort_def len_def)

lemma SequenceNumber_header:
  "20 \<le> len (Header p) \<Longrightarrow>
   SequenceNumber p =
     Inr (((ucast (elems (Header p) ! 7) OR push_bit 8 (ucast (elems (Header p) ! 6)))
          OR push_bit 16 (ucast (elems (Header p) ! 5)))
          OR push_bit 24 (ucast (elems (Header p) ! 4)))"
  using Uint32_reslice [of 8 4 "Header p"] by (simp add: SequenceNumber_def len_def)

lemma AckNumber_header:
  "20 \<le> len (Header p) \<Longrightarrow>
   AckNumber p =
     Inr (((ucast (elems (Header p) ! 11) OR push_bit 8 (ucast (elems (Header p) ! 10)))
          OR push_bit 16 (ucast (elems (Header p) ! 9)))
          OR push_bit 24 (ucast (elems (Header p) ! 8)))"
  using Uint32_reslice [of 12 8 "Header p"] by (simp add: AckNumber_def len_def)

lemma Window_header:
  "20 \<le> len (Header p) \<Longrightarrow>
   Window p =
     Inr (ucast (elems (Header p) ! 15) OR push_bit 8 (ucast (elems (Header p) ! 14)))"
  using Uint16_reslice [of 16 14 "Header p"] by (simp add: Window_def len_def)

lemma Checksum_header:
  "20 \<le> len (Header p) \<Longrightarrow>
   Checksum p =
     Inr (ucast (elems (Header p) ! 17) OR push_bit 8 (ucast (elems (Header p) ! 16)))"
  using Uint16_reslice [of 18 16 "Header p"] by (simp add: Checksum_def len_def)

lemma UrgentPointer_header:
  "20 \<le> len (Header p) \<Longrightarrow>
   UrgentPointer p =
     Inr (ucast (elems (Header p) ! 19) OR push_bit 8 (ucast (elems (Header p) ! 18)))"
  using Uint16_reslice [of 20 18 "Header p"] by (simp add: UrgentPointer_def len_def)

lemma DO_header:
  "20 \<le> len (Header p) \<Longrightarrow>
   DO p =
     and_then (substr (Sprintf_b None (elems (Header p) ! 12)) 0 4)
       (\<lambda>s. Inr (word_of_int (fst (ParseInt s 2 5))))"
  using byte12 [of "Header p"] by (simp add: DO_def len_def Let_def split_def)

lemma RSV_header:
  "20 \<le> len (Header p) \<Longrightarrow>
   RSV p =
     and_then (substr (Sprintf_b None (elems (Header p) ! 12)) 4 7)
       (\<lambda>s. Inr (word_of_int (fst (ParseInt s 2 4))))"
  using byte12 [of "Header p"] by (simp add: RSV_def len_def Let_def split_def)

subsection \<open>Big-endian reads as numbers\<close>

lemma unat_byte_less: "unat (b :: byte) < 256"
  using unsigned_less [of b] by simp

lemma or_push_bit_nat:
  fixes a b :: nat
  assumes "a < 2 ^ k"
  shows "a OR push_bit k b = b * 2 ^ k + a"
proof -
  have a: "take_bit k a = a"
    using assms by (simp add: take_bit_nat_eq_self)
  have "\<not> bit a n \<or> \<not> bit (push_bit k b) n" for n
  proof (cases "n < k")
    case True
    then show ?thesis by (simp add: bit_push_bit_iff)
  next
    case False
    have "bit (take_bit k a) n = False"
      using False by (simp add: bit_take_bit_iff)
    then show ?thesis by (simp add: a)
  qed
  then have "a + push_bit k b = a OR push_bit k b"
    by (rule disjunctive_add)
  then show ?thesis
    by (simp add: push_bit_eq_mult)
qed

lemma unat_ucast16: "unat (ucast (b :: byte) :: uint16) = unat b"
  by (simp add: unsigned_ucast_eq take_bit_nat_eq_self unat_byte_less [THEN less_trans])

lemma unat_ucast32: "unat (ucast (b :: byte) :: uint32) = unat b"
  by (simp add: unsigned_ucast_eq take_bit_nat_eq_self unat_byte_less [THEN less_trans])

lemma be16:
  "unat (ucast (b1 :: byte) OR push_bit 8 (ucast (b0 :: byte)) :: uint16)
   = unat b0 * 256 + unat b1"
proof -
  have lt: "unat b0 * 256 < 65536"
    using unat_byte_less [of b0] by simp
  have "unat (push_bit 8 (ucast b0 :: uint16)) = push_bit 8 (unat b0)"
    using lt
    by (subst unsigned_push_bit_eq)
      (simp add: unat_ucast16 push_bit_eq_mult take_bit_nat_eq_self)
  moreover have "unat b1 OR push_bit 8 (unat b0) = unat b0 * 2 ^ 8 + unat b1"
    by (rule or_push_bit_nat) (use unat_byte_less [of b1] in simp)
  ultimately show ?thesis
    by (simp add: unsigned_or_eq unat_ucast16)
qed

lemma be32:
  "unat (((ucast (b3 :: byte) OR push_bit 8 (ucast (b2 :: byte)))
          OR push_bit 16 (ucast (b1 :: byte))) OR push_bit 24 (ucast (b0 :: byte)) :: uint32)
   = ((unat b0 * 256 + unat b1) * 256 + unat b2) * 256 + unat b3"
proof -
  have p8: "unat (push_bit 8 (ucast b2 :: uint32)) = push_bit 8 (unat b2)"
    using unat_byte_less [of b2]
    by (subst unsigned_push_bit_eq)
      (simp add: unat_ucast32 push_bit_eq_mult take_bit_nat_eq_self)
  have p16: "unat (push_bit 16 (ucast b1 :: uint32)) = push_bit 16 (unat b1)"
    using unat_byte_less [of b1]
    by (subst unsigned_push_bit_eq)
      (simp add: unat_ucast32 push_bit_eq_mult take_bit_nat_eq_self)
  have p24: "unat (push_bit 24 (ucast b0 :: uint32)) = push_bit 24 (unat b0)"
    using unat_byte_less [of b0]
    by (subst unsigned_push_bit_eq)
      (simp add: unat_ucast32 push_bit_eq_mult take_bit_nat_eq_self)
  have s1: "unat b3 OR push_bit 8 (unat b2) = unat b2 * 2 ^ 8 + unat b3"
    by (rule or_push_bit_nat) (use unat_byte_less [of b3] in simp)
  have lt2: "unat b2 * 2 ^ 8 + unat b3 < 2 ^ 16"
    using unat_byte_less [of b2] unat_byte_less [of b3] by simp
  have s2: "(unat b2 * 2 ^ 8 + unat b3) OR push_bit 16 (unat b1)
            = unat b1 * 2 ^ 16 + (unat b2 * 2 ^ 8 + unat b3)"
    by (rule or_push_bit_nat) (rule lt2)
  have lt3: "unat b1 * 2 ^ 16 + (unat b2 * 2 ^ 8 + unat b3) < 2 ^ 24"
    using unat_byte_less [of b1] unat_byte_less [of b2] unat_byte_less [of b3] by simp
  have s3: "(unat b1 * 2 ^ 16 + (unat b2 * 2 ^ 8 + unat b3)) OR push_bit 24 (unat b0)
            = unat b0 * 2 ^ 24 + (unat b1 * 2 ^ 16 + (unat b2 * 2 ^ 8 + unat b3))"
    by (rule or_push_bit_nat) (rule lt3)
  have "unat (((ucast b3 OR push_bit 8 (ucast b2)) OR push_bit 16 (ucast b1))
         OR push_bit 24 (ucast b0) :: uint32)
        = ((unat b3 OR push_bit 8 (unat b2)) OR push_bit 16 (unat b1))
          OR push_bit 24 (unat b0)"
    by (simp only: unsigned_or_eq unat_ucast32 p8 p16 p24)
  also have "\<dots> = unat b0 * 2 ^ 24 + (unat b1 * 2 ^ 16 + (unat b2 * 2 ^ 8 + unat b3))"
    by (simp only: s1 s2 s3)
  finally show ?thesis by simp
qed

subsection \<open>The text the formatter produces\<close>

lemma binary_digits_step:
  "2 \<le> u \<Longrightarrow> binary_digits u = binary_digits (u div 2) @ [bit_char (u mod 2)]"
  by (subst binary_digits.simps) simp

lemma binary_digits_last: "u < 2 \<Longrightarrow> binary_digits u = [bit_char u]"
  by (subst binary_digits.simps) simp

lemma length_binary_digits:
  "2 ^ k \<le> u \<Longrightarrow> u < 2 ^ Suc k \<Longrightarrow> length (binary_digits u) = Suc k"
proof (induction k arbitrary: u)
  case 0
  then show ?case by (simp add: binary_digits_last)
next
  case (Suc k)
  have "2 \<le> u"
    using Suc.prems(1) by (rule order_trans [rotated]) simp
  moreover have "2 ^ k \<le> u div 2" "u div 2 < 2 ^ Suc k"
    using Suc.prems by simp_all
  ultimately show ?case
    using Suc.IH [of "u div 2"] by (simp add: binary_digits_step)
qed

lemma length_binary_digits_less:
  "u < 2 ^ k \<Longrightarrow> length (binary_digits u) \<le> max 1 k"
proof (induction k arbitrary: u)
  case 0
  then show ?case by (simp add: binary_digits_last)
next
  case (Suc k)
  show ?case
  proof (cases "2 \<le> u")
    case True
    have "u div 2 < 2 ^ k"
      using Suc.prems by simp
    then have "length (binary_digits (u div 2)) \<le> max 1 k"
      by (rule Suc.IH)
    moreover have "0 < k"
      using True Suc.prems by (cases k) simp_all
    ultimately show ?thesis
      using True by (simp add: binary_digits_step)
  next
    case False
    then show ?thesis by (simp add: binary_digits_last)
  qed
qed

text \<open>With a precision, the text is the text of \<open>u div 2\<close> followed by the last bit.\<close>

lemma fmtInteger_step:
  assumes "0 < k"
  shows "fmtInteger (Some (k + 1)) u = fmtInteger (Some k) (u div 2) @ [bit_char (u mod 2)]"
proof (cases "2 \<le> u")
  case True
  then show ?thesis
    using assms by (simp add: fmtInteger_def Let_def binary_digits_step)
next
  case False
  then have u: "u < 2" by simp
  then have "u div 2 = 0" by simp
  moreover have "binary_digits 0 = [bit_char 0]"
    by (simp add: binary_digits_last)
  moreover have "replicate k (CHR ''0'') = replicate (k - 1) (CHR ''0'') @ [bit_char 0]"
    using assms by (cases k) (simp_all add: bit_char_def replicate_append_same)
  ultimately show ?thesis
    using u assms by (simp add: fmtInteger_def Let_def binary_digits_last)
qed

lemma fmtInteger_two:
  assumes "u < 4"
  shows "fmtInteger (Some 2) u = [bit_char (u div 2), bit_char (u mod 2)]"
proof (cases "2 \<le> u")
  case True
  moreover have "u div 2 < 2"
    using assms by simp
  ultimately show ?thesis
    by (simp add: fmtInteger_def Let_def binary_digits_step binary_digits_last)
next
  case False
  then show ?thesis
    by (simp add: fmtInteger_def Let_def binary_digits_last bit_char_def)
qed

lemma fmtInteger_8:
  assumes "u < 256"
  shows "fmtInteger (Some 8) u =
     [bit_char (u div 128), bit_char (u div 64 mod 2), bit_char (u div 32 mod 2),
      bit_char (u div 16 mod 2), bit_char (u div 8 mod 2), bit_char (u div 4 mod 2),
      bit_char (u div 2 mod 2), bit_char (u mod 2)]"
proof -
  have "u div 64 < 4"
    using assms by simp
  then have "fmtInteger (Some 2) (u div 64) = [bit_char (u div 128), bit_char (u div 64 mod 2)]"
    by (simp add: fmtInteger_two div_mult2_eq [symmetric])
  then show ?thesis
    using fmtInteger_step [of 7 u] fmtInteger_step [of 6 "u div 2"]
      fmtInteger_step [of 5 "u div 4"] fmtInteger_step [of 4 "u div 8"]
      fmtInteger_step [of 3 "u div 16"] fmtInteger_step [of 2 "u div 32"]
    by (simp add: div_mult2_eq [symmetric])
qed

lemma fmtInteger_None:
  assumes "2 ^ k \<le> u" "u < 2 ^ Suc k"
  shows "fmtInteger None u = fmtInteger (Some (Suc k)) u"
  using length_binary_digits [OF assms] by (simp add: fmtInteger_def Let_def)

lemma fmtInteger_min_one: "fmtInteger (Some (Suc 0)) u = fmtInteger None u"
proof -
  have "Suc 0 \<le> length (binary_digits u)"
    by (subst binary_digits.simps) simp
  then have "1 - length (binary_digits u) = 0"
    by simp
  then show ?thesis
    by (simp add: fmtInteger_def Let_def)
qed

lemma Sprintf_b_8:
  "Sprintf_b (Some 8) x =
     [bit_char (unat x div 128), bit_char (unat x div 64 mod 2),
      bit_char (unat x div 32 mod 2), bit_char (unat x div 16 mod 2),
      bit_char (unat x div 8 mod 2), bit_char (unat x div 4 mod 2),
      bit_char (unat x div 2 mod 2), bit_char (unat x mod 2)]"
  unfolding Sprintf_b_def by (rule fmtInteger_8) (rule unat_byte_less)

lemma Sprintf_b_top_bit:
  assumes "128 \<le> unat x"
  shows "Sprintf_b None x = Sprintf_b (Some 8) x"
  using fmtInteger_None [of 7 "unat x"] assms unat_byte_less [of x]
  by (simp add: Sprintf_b_def)

lemma Sprintf_b_min_one: "Sprintf_b (Some (Suc 0)) x = Sprintf_b None x"
  by (simp add: Sprintf_b_def fmtInteger_min_one)

lemma length_Sprintf_b:
  "unat x < 2 ^ k \<Longrightarrow> length (Sprintf_b None x) \<le> max 1 k"
  using length_binary_digits_less [of "unat x" k] by (simp add: Sprintf_b_def fmtInteger_def Let_def)

lemma bit_char_not_zero [simp]: "bit_char d \<noteq> CHR ''0'' \<longleftrightarrow> d \<noteq> 0"
  by (simp add: bit_char_def)

lemma byte13_Suc:
  assumes "14 \<le> length (elems s)"
  shows "and_then (reslice s 12 14) (\<lambda>b. and_then (index b (Suc 0)) f) = f (elems s ! 13)"
  using byte13 [OF assms, of f] by simp

lemma set_flag_if:
  "(if c then d\<lparr>SYN := True\<rparr> else d) = d\<lparr>SYN := c \<or> SYN d\<rparr>"
  "(if c then d\<lparr>ACK := True\<rparr> else d) = d\<lparr>ACK := c \<or> ACK d\<rparr>"
  "(if c then d\<lparr>RST := True\<rparr> else d) = d\<lparr>RST := c \<or> RST d\<rparr>"
  "(if c then d\<lparr>FIN := True\<rparr> else d) = d\<lparr>FIN := c \<or> FIN d\<rparr>"
  "(if c then d\<lparr>PSH := True\<rparr> else d) = d\<lparr>PSH := c \<or> PSH d\<rparr>"
  "(if c then d\<lparr>URG := True\<rparr> else d) = d\<lparr>URG := c \<or> URG d\<rparr>"
  by simp_all

lemma Flags_header:
  assumes "20 \<le> len (Header p)"
  shows "Flags p =
     and_then (substr (Sprintf_b None (elems (Header p) ! 12)) 7 8) (\<lambda>c.
       Inr \<lparr>SYN = (c \<noteq> ''0''),
            ACK = (unat (elems (Header p) ! 13) div 128 \<noteq> 0),
            RST = (unat (elems (Header p) ! 13) div 64 mod 2 \<noteq> 0),
            FIN = (unat (elems (Header p) ! 13) div 32 mod 2 \<noteq> 0),
            PSH = (unat (elems (Header p) ! 13) div 16 mod 2 \<noteq> 0),
            URG = (unat (elems (Header p) ! 13) div 8 mod 2 \<noteq> 0)\<rparr>)"
proof -
  have l: "14 \<le> length (elems (Header p))"
    using assms by (simp add: len_def)
  show ?thesis
    by (simp add: Flags_def byte12 [OF l] byte13_Suc [OF l] set_flag_if Let_def
        Sprintf_b_min_one Sprintf_b_8 substr_def)
qed

subsection \<open>The packet of \<open>main\<close> and its variants\<close>

lemma len_sample [simp]: "len (Header sample_packet) = 20"
  by (simp add: sample_packet_def packet_of_def sample_bytes_def len_def)

lemma elems_sample: "elems (Header sample_packet) = sample_bytes"
  by (simp add: sample_packet_def packet_of_def)

lemma bd160: "binary_digits 160 = ''10100000''"
  by (simp add: binary_digits.simps bit_char_def)

lemma Sprintf_b_160: "Sprintf_b None 160 = ''10100000''"
  by (simp add: Sprintf_b_def fmtInteger_def bd160)

lemma ParseInt_1010: "ParseInt ''1010'' 2 5 = (10, None)"
  by (simp add: ParseInt_def ParseUint_def digit_value_def)

lemma ParseInt_000: "ParseInt ''000'' 2 4 = (0, None)"
  by (simp add: ParseInt_def ParseUint_def digit_value_def)

lemma DO_sample: "DO sample_packet = Inr 10"
  by (simp add: DO_header elems_sample sample_bytes_def Sprintf_b_160 substr_def
      ParseInt_1010)

lemma RSV_sample: "RSV sample_packet = Inr 0"
  by (simp add: RSV_header elems_sample sample_bytes_def Sprintf_b_160 substr_def
      ParseInt_000)

lemma Flags_sample:
  "Flags sample_packet =
     Inr \<lparr>SYN = False, ACK = False, RST = False, FIN = False, PSH = False, URG = False\<rparr>"
  by (simp add: Flags_header elems_sample sample_bytes_def Sprintf_b_160 substr_def)

lemma len_header_with [simp]: "len (Header (header_with a b)) = 20"
  by (simp add: header_with_def packet_of_def sample_bytes_def len_def)

lemma byte12_header_with [simp]: "elems (Header (header_with a b)) ! 12 = a"
  by (simp add: header_with_def packet_of_def sample_bytes_def)

lemma byte13_header_with [simp]: "elems (Header (header_with a b)) ! 13 = b"
  by (simp add: header_with_def packet_of_def sample_bytes_def)

lemma len_zero [simp]: "len (Header zero_packet) = 20"
  by (simp add: zero_packet_def packet_of_def len_def)

lemma byte12_zero [simp]: "elems (Header zero_packet) ! 12 = 0"
  by (simp add: zero_packet_def packet_of_def)

lemma bd80: "binary_digits 80 = ''1010000''"
  by (simp add: binary_digits.simps bit_char_def)

lemma bd81: "binary_digits 81 = ''1010001''"
  by (simp add: binary_digits.simps bit_char_def)

lemma Sprintf_b_80: "Sprintf_b None 80 = ''1010000''"
  by (simp add: Sprintf_b_def fmtInteger_def bd80)

lemma Sprintf_b_81: "Sprintf_b None 81 = ''1010001''"
  by (simp add: Sprintf_b_def fmtInteger_def bd81)

lemma ParseInt_001: "ParseInt ''001'' 2 4 = (1, None)"
  by (simp add: ParseInt_def ParseUint_def digit_value_def)

lemma DO_80: "DO (header_with 80 b) = Inr 10"
  by (simp add: DO_header Sprintf_b_80 substr_def ParseInt_1010)

subsection \<open>Byte ranges\<close>

lemma byte_range_2:
  assumes "hi = lo + 2" "hi \<le> length bs"
  shows "byte_range bs lo hi = [bs ! lo, bs ! (lo + 1)]"
  using assms by (auto simp: byte_range_def list_eq_iff_nth_eq less_Suc_eq numeral_2_eq_2)

lemma byte_range_4:
  assumes "hi = lo + 4" "hi \<le> length bs"
  shows "byte_range bs lo hi = [bs ! lo, bs ! (lo + 1), bs ! (lo + 2), bs ! (lo + 3)]"
  using assms by (auto simp: byte_range_def list_eq_iff_nth_eq less_Suc_eq nth_Cons' numeral_eq_Suc)


lemma big_endian_2: "big_endian [b0, b1] = unat b0 * 256 + unat b1"
  by (simp add: big_endian_def)

lemma big_endian_4:
  "big_endian [b0, b1, b2, b3] = ((unat b0 * 256 + unat b1) * 256 + unat b2) * 256 + unat b3"
  by (simp add: big_endian_def)

lemma Uint16_big_endian:
  assumes "hi = lo + 2" "hi \<le> length (elems s)"
  shows "\<exists>w. and_then (reslice s lo hi) Uint16 = Inr w \<and>
             unat w = big_endian (byte_range (elems s) lo hi)"
  using assms byte_range_2 [of hi lo "elems s"]
  by (simp add: Uint16_reslice be16 big_endian_2)

lemma Uint32_big_endian:
  assumes "hi = lo + 4" "hi \<le> length (elems s)"
  shows "\<exists>w. and_then (reslice s lo hi) Uint32 = Inr w \<and>
             unat w = big_endian (byte_range (elems s) lo hi)"
  using assms byte_range_4 [of hi lo "elems s"]
  by (simp add: Uint32_reslice be32 big_endian_4)

subsection \<open>Parsing the binary text\<close>

lemma digit_value_bit_char: "d < 2 \<Longrightarrow> digit_value (bit_char d) = Some d"
  by (auto simp: digit_value_def bit_char_def less_2_cases_iff)

lemma bit_char_not_sign: "bit_char d \<noteq> CHR ''+''" "bit_char d \<noteq> CHR ''-''"
  by (simp_all add: bit_char_def)

lemma ParseInt_bits4:
  assumes "a < 2" "b < 2" "c < 2" "d < 2"
  shows "ParseInt [bit_char a, bit_char b, bit_char c, bit_char d] 2 5
         = (int (8 * a + 4 * b + 2 * c + d), None)"
proof -
  have "8 * a + 4 * b + 2 * c + d < 16"
    using assms by simp
  then show ?thesis
    using assms
    by (simp add: ParseInt_def ParseUint_def digit_value_bit_char bit_char_not_sign
        Let_def algebra_simps)
qed

lemma ParseInt_bits3:
  assumes "a < 2" "b < 2" "c < 2"
  shows "ParseInt [bit_char a, bit_char b, bit_char c] 2 4 = (int (4 * a + 2 * b + c), None)"
proof -
  have "4 * a + 2 * b + c < 8"
    using assms by simp
  then show ?thesis
    using assms
    by (simp add: ParseInt_def ParseUint_def digit_value_bit_char bit_char_not_sign
        Let_def algebra_simps)
qed

lemma binary_expansion:
  fixes a b c d x y z :: nat
  assumes "a = 2 * b + x" "b = 2 * c + y" "c = 2 * d + z"
  shows "8 * d + 4 * z + 2 * y + x = a"
  using assms by simp

lemma nibble_sum:
  fixes u :: nat
  shows "8 * (u div 128) + 4 * (u div 64 mod 2) + 2 * (u div 32 mod 2) + u div 16 mod 2
         = u div 16"
proof (rule binary_expansion)
  show "u div 16 = 2 * (u div 32) + u div 16 mod 2"
    using mult_div_mod_eq [of 2 "u div 16"] by (simp add: div_mult2_eq [symmetric])
  show "u div 32 = 2 * (u div 64) + u div 32 mod 2"
    using mult_div_mod_eq [of 2 "u div 32"] by (simp add: div_mult2_eq [symmetric])
  show "u div 64 = 2 * (u div 128) + u div 64 mod 2"
    using mult_div_mod_eq [of 2 "u div 64"] by (simp add: div_mult2_eq [symmetric])
qed

lemma reserved_sum:
  fixes u :: nat
  shows "4 * (u div 8 mod 2) + 2 * (u div 4 mod 2) + u div 2 mod 2 = u div 2 mod 8"
proof -
  have m1: "u div 2 mod 8 = 2 * (u div 4 mod 4) + u div 2 mod 2"
    using mod_mult2_eq [of "u div 2" 2 4] by (simp add: div_mult2_eq [symmetric])
  have m2: "u div 4 mod 4 = 2 * (u div 8 mod 2) + u div 4 mod 2"
    using mod_mult2_eq [of "u div 4" 2 2] by (simp add: div_mult2_eq [symmetric])
  show ?thesis
    unfolding m1 m2 by simp
qed

lemma word_of_unat_div:
  "word_of_nat (unat (x :: byte) div 16) = drop_bit 4 x"
proof -
  have "unat (drop_bit 4 x) = drop_bit 4 (unat x)"
    by (rule unat_drop_bit_eq)
  then have eq: "unat (drop_bit 4 x) = unat x div 16"
    by (simp only: drop_bit_eq_div) simp
  show ?thesis
    by (subst eq [symmetric]) (simp only: of_nat_unat ucast_id)
qed

lemma word_of_unat_reserved:
  "word_of_nat (unat (x :: byte) div 2 mod 8) = take_bit 3 (drop_bit (Suc 0) x)"
proof -
  have "unat (take_bit 3 (drop_bit (Suc 0) x)) = take_bit 3 (drop_bit (Suc 0) (unat x))"
    by (simp only: unsigned_take_bit_eq unat_drop_bit_eq)
  then have eq: "unat (take_bit 3 (drop_bit (Suc 0) x)) = unat x div 2 mod 8"
    by (simp only: drop_bit_eq_div take_bit_eq_mod) simp
  show ?thesis
    by (subst eq [symmetric]) (simp only: of_nat_unat ucast_id)
qed


subsection \<open>Bits of a byte\<close>

lemma bit_byte_iff:
  assumes "n < 8"
  shows "bit (x :: byte) n \<longleftrightarrow> unat x div 2 ^ n mod 2 \<noteq> 0"
proof -
  have "bit (unat x) n \<longleftrightarrow> bit x n"
    using assms by (simp add: bit_unsigned_iff)
  then show ?thesis
    by (simp add: bit_iff_odd odd_iff_mod_2_eq_one)
qed

lemma msb_bit_byte:
  "msb_bit x 0 \<longleftrightarrow> unat x div 128 \<noteq> 0"
  "msb_bit x (Suc 0) \<longleftrightarrow> unat x div 64 mod 2 \<noteq> 0"
  "msb_bit x 2 \<longleftrightarrow> unat x div 32 mod 2 \<noteq> 0"
  "msb_bit x 3 \<longleftrightarrow> unat x div 16 mod 2 \<noteq> 0"
  "msb_bit x 4 \<longleftrightarrow> unat x div 8 mod 2 \<noteq> 0"
  "msb_bit x 7 \<longleftrightarrow> unat x mod 2 \<noteq> 0"
  using unat_byte_less [of x]
  by (simp_all add: msb_bit_def bit_byte_iff)

lemma substr_8:
  "substr [c0, c1, c2, c3, c4, c5, c6, c7] 0 4 = Inr [c0, c1, c2, c3]"
  "substr [c0, c1, c2, c3, c4, c5, c6, c7] 4 7 = Inr [c4, c5, c6]"
  "substr [c0, c1, c2, c3, c4, c5, c6, c7] 7 8 = Inr [c7]"
  by (simp_all add: substr_def)

subsection \<open>DO, RSV and Flags by the value of byte 12\<close>

text \<open>
  When the top bit of byte 12 is set, its text has eight characters and the three
  accessors return the fields of the documented layout. When it is clear, the text is
  shorter: \<open>Flags\<close> panics, \<open>RSV\<close> panics below 64 and \<open>DO\<close> panics below 8.
\<close>

lemma DO_top_bit_set:
  assumes "20 \<le> len (Header p)" and "128 \<le> unat (elems (Header p) ! 12)"
  shows "DO p = Inr (spec_DataOffset (elems (Header p) ! 12))"
proof -
  let ?u = "unat (elems (Header p) ! 12)"
  have u: "?u < 256"
    by (rule unat_byte_less)
  then have "?u div 128 < 2"
    by simp
  then have "ParseInt [bit_char (?u div 128), bit_char (?u div 64 mod 2),
                bit_char (?u div 32 mod 2), bit_char (?u div 16 mod 2)] 2 5
             = (int (?u div 16), None)"
    by (simp add: ParseInt_bits4 nibble_sum)
  then show ?thesis
    using assms
    by (simp add: DO_header Sprintf_b_top_bit Sprintf_b_8 substr_8 spec_DataOffset_def
        word_of_unat_div)
qed

lemma RSV_top_bit_set:
  assumes "20 \<le> len (Header p)" and "128 \<le> unat (elems (Header p) ! 12)"
  shows "RSV p = Inr (spec_Reserved (elems (Header p) ! 12))"
proof -
  let ?u = "unat (elems (Header p) ! 12)"
  have "ParseInt [bit_char (?u div 8 mod 2), bit_char (?u div 4 mod 2),
                bit_char (?u div 2 mod 2)] 2 4
        = (int (?u div 2 mod 8), None)"
    by (simp add: ParseInt_bits3 reserved_sum)
  then show ?thesis
    using assms
    by (simp add: RSV_header Sprintf_b_top_bit Sprintf_b_8 substr_8 spec_Reserved_def
        word_of_unat_reserved)
qed

lemma Flags_top_bit_set:
  assumes "20 \<le> len (Header p)" and "128 \<le> unat (elems (Header p) ! 12)"
  shows "Flags p =
     Inr \<lparr>SYN = msb_bit (elems (Header p) ! 12) 7,
          ACK = msb_bit (elems (Header p) ! 13) 0,
          RST = msb_bit (elems (Header p) ! 13) 1,
          FIN = msb_bit (elems (Header p) ! 13) 2,
          PSH = msb_bit (elems (Header p) ! 13) 3,
          URG = msb_bit (elems (Header p) ! 13) 4\<rparr>"
  using assms
  by (simp add: Flags_header Sprintf_b_top_bit Sprintf_b_8 substr_8 msb_bit_byte)

lemma Flags_top_bit_clear:
  assumes "20 \<le> len (Header p)" and "unat (elems (Header p) ! 12) < 128"
  shows "Flags p = Inl SliceBoundsOutOfRange"
  using assms length_Sprintf_b [of "elems (Header p) ! 12" 7]
  by (simp add: Flags_header substr_def)

lemma DO_below_8:
  assumes "20 \<le> len (Header p)" and "unat (elems (Header p) ! 12) < 8"
  shows "DO p = Inl SliceBoundsOutOfRange"
  using assms length_Sprintf_b [of "elems (Header p) ! 12" 3]
  by (simp add: DO_header substr_def)

lemma RSV_below_64:
  assumes "20 \<le> len (Header p)" and "unat (elems (Header p) ! 12) < 64"
  shows "RSV p = Inl SliceBoundsOutOfRange"
  using assms length_Sprintf_b [of "elems (Header p) ! 12" 6]
  by (simp add: RSV_header substr_def)

text \<open>
  When byte 12 lies between \<open>0x40\<close> and \<open>0x7f\<close> its text has seven characters: \<open>DO\<close>
  returns the bits 1 to 4 and \<open>RSV\<close> the bits 5 to 7, one position to the right of the
  documented fields.
\<close>

lemma fmtInteger_7:
  assumes "u < 128"
  shows "fmtInteger (Some 7) u =
     [bit_char (u div 64), bit_char (u div 32 mod 2), bit_char (u div 16 mod 2),
      bit_char (u div 8 mod 2), bit_char (u div 4 mod 2), bit_char (u div 2 mod 2),
      bit_char (u mod 2)]"
proof -
  have "u div 32 < 4"
    using assms by simp
  then have "fmtInteger (Some 2) (u div 32) = [bit_char (u div 64), bit_char (u div 32 mod 2)]"
    by (simp add: fmtInteger_two div_mult2_eq [symmetric])
  then show ?thesis
    using fmtInteger_step [of 6 u] fmtInteger_step [of 5 "u div 2"]
      fmtInteger_step [of 4 "u div 4"] fmtInteger_step [of 3 "u div 8"]
      fmtInteger_step [of 2 "u div 16"]
    by (simp add: div_mult2_eq [symmetric])
qed

lemma Sprintf_b_seven_digits:
  assumes "64 \<le> unat x" "unat x < 128"
  shows "Sprintf_b None x =
     [bit_char (unat x div 64), bit_char (unat x div 32 mod 2),
      bit_char (unat x div 16 mod 2), bit_char (unat x div 8 mod 2),
      bit_char (unat x div 4 mod 2), bit_char (unat x div 2 mod 2),
      bit_char (unat x mod 2)]"
  using fmtInteger_None [of 6 "unat x"] fmtInteger_7 [of "unat x"] assms
  by (simp add: Sprintf_b_def)

lemma substr_7:
  "substr [c0, c1, c2, c3, c4, c5, c6] 0 4 = Inr [c0, c1, c2, c3]"
  "substr [c0, c1, c2, c3, c4, c5, c6] 4 7 = Inr [c4, c5, c6]"
  by (simp_all add: substr_def)

lemma shifted_nibble_sum:
  fixes u :: nat
  shows "8 * (u div 64) + 4 * (u div 32 mod 2) + 2 * (u div 16 mod 2) + u div 8 mod 2
         = u div 8"
proof (rule binary_expansion)
  show "u div 8 = 2 * (u div 16) + u div 8 mod 2"
    using mult_div_mod_eq [of 2 "u div 8"] by (simp add: div_mult2_eq [symmetric])
  show "u div 16 = 2 * (u div 32) + u div 16 mod 2"
    using mult_div_mod_eq [of 2 "u div 16"] by (simp add: div_mult2_eq [symmetric])
  show "u div 32 = 2 * (u div 64) + u div 32 mod 2"
    using mult_div_mod_eq [of 2 "u div 32"] by (simp add: div_mult2_eq [symmetric])
qed

lemma low_bits_sum:
  fixes u :: nat
  shows "4 * (u div 4 mod 2) + 2 * (u div 2 mod 2) + u mod 2 = u mod 8"
proof -
  have m1: "u mod 8 = 2 * (u div 2 mod 4) + u mod 2"
    using mod_mult2_eq [of u 2 4] by simp
  have m2: "u div 2 mod 4 = 2 * (u div 4 mod 2) + u div 2 mod 2"
    using mod_mult2_eq [of "u div 2" 2 2] by (simp add: div_mult2_eq [symmetric])
  show ?thesis
    unfolding m1 m2 by simp
qed

lemma word_of_unat_div_8: "word_of_nat (unat (x :: byte) div 8) = drop_bit 3 x"
proof -
  have "unat (drop_bit 3 x) = drop_bit 3 (unat x)"
    by (rule unat_drop_bit_eq)
  then have eq: "unat (drop_bit 3 x) = unat x div 8"
    by (simp only: drop_bit_eq_div) simp
  show ?thesis
    by (subst eq [symmetric]) (simp only: of_nat_unat ucast_id)
qed

lemma word_of_unat_mod_8: "word_of_nat (unat (x :: byte) mod 8) = take_bit 3 x"
proof -
  have "unat (take_bit 3 x) = take_bit 3 (unat x)"
    by (rule unsigned_take_bit_eq)
  then have eq: "unat (take_bit 3 x) = unat x mod 8"
    by (simp only: take_bit_eq_mod) simp
  show ?thesis
    by (subst eq [symmetric]) (simp only: of_nat_unat ucast_id)
qed

lemma DO_seven_digits:
  assumes "20 \<le> len (Header p)"
    and "64 \<le> unat (elems (Header p) ! 12)" and "unat (elems (Header p) ! 12) < 128"
  shows "DO p = Inr (drop_bit 3 (elems (Header p) ! 12))"
proof -
  let ?u = "unat (elems (Header p) ! 12)"
  have "?u div 64 < 2"
    using assms(3) by simp
  then have "ParseInt [bit_char (?u div 64), bit_char (?u div 32 mod 2),
                bit_char (?u div 16 mod 2), bit_char (?u div 8 mod 2)] 2 5
             = (int (?u div 8), None)"
    by (simp add: ParseInt_bits4 shifted_nibble_sum)
  then show ?thesis
    using assms
    by (simp add: DO_header Sprintf_b_seven_digits substr_7 word_of_unat_div_8)
qed

lemma RSV_seven_digits:
  assumes "20 \<le> len (Header p)"
    and "64 \<le> unat (elems (Header p) ! 12)" and "unat (elems (Header p) ! 12) < 128"
  shows "RSV p = Inr (take_bit 3 (elems (Header p) ! 12))"
proof -
  let ?u = "unat (elems (Header p) ! 12)"
  have "ParseInt [bit_char (?u div 4 mod 2), bit_char (?u div 2 mod 2),
                bit_char (?u mod 2)] 2 4
        = (int (?u mod 8), None)"
    by (simp add: ParseInt_bits3 low_bits_sum)
  then show ?thesis
    using assms
    by (simp add: RSV_header Sprintf_b_seven_digits substr_7 word_of_unat_mod_8)
qed

text \<open>
  Whenever \<open>DO\<close> and \<open>RSV\<close> return, the value is within the width of the field: the
  text holds binary digits only, so the four characters parse to at most 15 and the
  three characters to at most 7.
\<close>

lemma binary_digits_chars:
  "c \<in> set (binary_digits u) \<Longrightarrow> \<exists>d<2. c = bit_char d"
proof (induction u rule: binary_digits.induct)
  case (1 u)
  show ?case
  proof (cases "2 \<le> u")
    case True
    then have "c \<in> set (binary_digits (u div 2)) \<or> c = bit_char (u mod 2)"
      using "1.prems" by (auto simp: binary_digits_step)
    then show ?thesis
    proof
      assume "c \<in> set (binary_digits (u div 2))"
      then show ?thesis
        using True by (rule "1.IH" [rotated])
    next
      assume "c = bit_char (u mod 2)"
      moreover have "u mod 2 < 2"
        by simp
      ultimately show ?thesis
        by blast
    qed
  next
    case False
    then have "c = bit_char u" "u < 2"
      using "1.prems" by (simp_all add: binary_digits_last)
    then show ?thesis
      by blast
  qed
qed

lemma Sprintf_b_None_chars:
  "c \<in> set (Sprintf_b None x) \<Longrightarrow> \<exists>d<2. c = bit_char d"
  using binary_digits_chars [of c "unat x"] by (simp add: Sprintf_b_def fmtInteger_def)

lemma substr_chars:
  assumes "substr s lo hi = Inr t"
  shows "length t = hi - lo" and "set t \<subseteq> set s"
proof -
  have t: "t = take (hi - lo) (drop lo s)" and b: "lo \<le> hi" "hi \<le> length s"
    using assms by (simp_all add: substr_def split: if_splits)
  show "length t = hi - lo"
    using b by (simp add: t)
  show "set t \<subseteq> set s"
    unfolding t using set_take_subset set_drop_subset by (rule subset_trans)
qed

lemma ParseInt_4_bits:
  assumes "length t = 4" and "\<And>c. c \<in> set t \<Longrightarrow> \<exists>d<2. c = bit_char d"
  shows "\<exists>n<16. ParseInt t 2 5 = (int n, None)"
proof -
  obtain c0 c1 c2 c3 where t: "t = [c0, c1, c2, c3]"
    using assms(1) by (auto simp: length_Suc_conv numeral_eq_Suc)
  obtain a where a: "a < 2" "c0 = bit_char a"
    using assms(2) [of c0] by (auto simp: t)
  obtain b where b: "b < 2" "c1 = bit_char b"
    using assms(2) [of c1] by (auto simp: t)
  obtain c where c: "c < 2" "c2 = bit_char c"
    using assms(2) [of c2] by (auto simp: t)
  obtain d where d: "d < 2" "c3 = bit_char d"
    using assms(2) [of c3] by (auto simp: t)
  have "8 * a + 4 * b + 2 * c + d < 16"
    using a b c d by simp
  moreover have "ParseInt t 2 5 = (int (8 * a + 4 * b + 2 * c + d), None)"
    unfolding t a b c d using a(1) b(1) c(1) d(1) by (rule ParseInt_bits4)
  ultimately show ?thesis
    by blast
qed

lemma ParseInt_3_bits:
  assumes "length t = 3" and "\<And>c. c \<in> set t \<Longrightarrow> \<exists>d<2. c = bit_char d"
  shows "\<exists>n<8. ParseInt t 2 4 = (int n, None)"
proof -
  obtain c0 c1 c2 where t: "t = [c0, c1, c2]"
    using assms(1) by (auto simp: length_Suc_conv numeral_eq_Suc)
  obtain a where a: "a < 2" "c0 = bit_char a"
    using assms(2) [of c0] by (auto simp: t)
  obtain b where b: "b < 2" "c1 = bit_char b"
    using assms(2) [of c1] by (auto simp: t)
  obtain c where c: "c < 2" "c2 = bit_char c"
    using assms(2) [of c2] by (auto simp: t)
  have "4 * a + 2 * b + c < 8"
    using a b c by simp
  moreover have "ParseInt t 2 4 = (int (4 * a + 2 * b + c), None)"
    unfolding t a b c using a(1) b(1) c(1) by (rule ParseInt_bits3)
  ultimately show ?thesis
    by blast
qed

lemma DO_range:
  assumes "20 \<le> len (Header p)" and "DO p = Inr d"
  shows "unat d \<le> 15"
proof -
  let ?s = "Sprintf_b None (elems (Header p) ! 12)"
  obtain t where t: "substr ?s 0 4 = Inr t"
    and d: "d = word_of_int (fst (ParseInt t 2 5))"
    using assms by (cases "substr ?s 0 4") (simp_all add: DO_header)
  have "length t = 4" "set t \<subseteq> set ?s"
    using substr_chars [OF t] by simp_all
  then obtain n where n: "n < 16" "ParseInt t 2 5 = (int n, None)"
    using ParseInt_4_bits [of t] Sprintf_b_None_chars by blast
  have "unat d = n"
    using n(1) by (simp add: d n(2) unat_of_nat)
  then show ?thesis
    using n(1) by simp
qed

lemma RSV_range:
  assumes "20 \<le> len (Header p)" and "RSV p = Inr r"
  shows "unat r \<le> 7"
proof -
  let ?s = "Sprintf_b None (elems (Header p) ! 12)"
  obtain t where t: "substr ?s 4 7 = Inr t"
    and r: "r = word_of_int (fst (ParseInt t 2 4))"
    using assms by (cases "substr ?s 4 7") (simp_all add: RSV_header)
  have "length t = 3" "set t \<subseteq> set ?s"
    using substr_chars [OF t] by simp_all
  then obtain n where n: "n < 8" "ParseInt t 2 4 = (int n, None)"
    using ParseInt_3_bits [of t] Sprintf_b_None_chars by blast
  have "unat r = n"
    using n(1) by (simp add: r n(2) unat_of_nat)
  then show ?thesis
    using n(1) by simp
qed

text \<open>
  For a data offset of 8 or more the packed byte 12 has its top bit set, and the round
  trip of claim C6 holds.
\<close>

lemma unat_pack_byte12:
  assumes "d \<le> 15" "r \<le> 7"
  shows "unat (pack_byte12 d r syn) = d * 16 + r * 2 + (if syn then 1 else 0)"
  unfolding pack_byte12_def unat_of_nat using assms by simp

lemma unat_pack_byte13:
  "unat (pack_byte13 ack rst fin psh urg) =
     (if ack then 128 else 0) + (if rst then 64 else 0) + (if fin then 32 else 0)
     + (if psh then 16 else 0) + (if urg then 8 else 0)"
  unfolding pack_byte13_def unat_of_nat by simp

lemma round_trip_top_bit_set:
  assumes "8 \<le> d" "d \<le> 15" "r \<le> 7"
  shows "DO (header_with (pack_byte12 d r syn) (pack_byte13 ack rst fin psh urg))
           = Inr (of_nat d)"
    and "RSV (header_with (pack_byte12 d r syn) (pack_byte13 ack rst fin psh urg))
           = Inr (of_nat r)"
    and "Flags (header_with (pack_byte12 d r syn) (pack_byte13 ack rst fin psh urg))
           = Inr \<lparr>SYN = syn, ACK = ack, RST = rst, FIN = fin, PSH = psh, URG = urg\<rparr>"
proof -
  let ?x = "pack_byte12 d r syn"
  let ?y = "pack_byte13 ack rst fin psh urg"
  let ?p = "header_with ?x ?y"
  have x: "unat ?x = d * 16 + r * 2 + (if syn then 1 else 0)"
    using assms by (simp add: unat_pack_byte12)
  have top: "128 \<le> unat (elems (Header ?p) ! 12)"
    using assms(1) by (simp add: x)
  have l: "20 \<le> len (Header ?p)"
    by simp
  have "unat ?x div 16 = d"
    unfolding x using assms by (cases syn) simp_all
  then have "spec_DataOffset ?x = of_nat d"
    using word_of_unat_div [of ?x] by (simp add: spec_DataOffset_def)
  then show "DO ?p = Inr (of_nat d)"
    using DO_top_bit_set [OF l top] by simp
  have "(d * 16 + r * 2 + (if syn then 1 else 0)) div 2 = d * 8 + r"
    by (cases syn) simp_all
  then have "unat ?x div 2 mod 8 = r"
    unfolding x using assms by simp
  then have "spec_Reserved ?x = of_nat r"
    using word_of_unat_reserved [of ?x] by (simp add: spec_Reserved_def)
  then show "RSV ?p = Inr (of_nat r)"
    using RSV_top_bit_set [OF l top] by simp
  have "(d * 16 + r * 2 + (if syn then 1 else 0)) mod 2 = (if syn then 1 else 0)"
    by (cases syn) (simp_all add: mod_Suc)
  then have "msb_bit ?x 7 = syn"
    unfolding msb_bit_byte x by simp
  moreover have "msb_bit ?y 0 = ack" "msb_bit ?y (Suc 0) = rst" "msb_bit ?y 2 = fin"
    "msb_bit ?y 3 = psh" "msb_bit ?y 4 = urg"
    by (simp_all add: msb_bit_byte unat_pack_byte13)
  ultimately show "Flags ?p =
      Inr \<lparr>SYN = syn, ACK = ack, RST = rst, FIN = fin, PSH = psh, URG = urg\<rparr>"
    using Flags_top_bit_set [OF l top] by simp
qed

section \<open>The sample header\<close>

text \<open>
  Claim C1 gives the decoding of the 20-byte sample header
  \<open>b7 4e 01 bb b1 46 a4 61 00 00 00 00 a0 02 fa f0 9b ba 00 00\<close> and says that
  \<open>SequenceNumber\<close> returns 2972860513. The bytes 4 to 7 are \<open>b1 46 a4 61\<close>, whose
  big-endian value is 2974196833, and that is what the code returns: the number of the
  claim is the value of \<open>b1 32 40 61\<close>.
\<close>

theorem sample_sequence_number_is_not_2972860513:
  "SequenceNumber sample_packet \<noteq> Inr 2972860513"
  by (simp add: SequenceNumber_header elems_sample sample_bytes_def)

text \<open>
  Claim C1, amended: decoding the sample header yields SourcePort 46926,
  DestinationPort 443, SequenceNumber 2974196833, AckNumber 0, DO 10, RSV 0, the six
  flags all false, Window 64240, Checksum 39866 and UrgentPointer 0.
\<close>

theorem sample_header_decode:
  "SourcePort sample_packet = Inr 46926 \<and>
   DestinationPort sample_packet = Inr 443 \<and>
   SequenceNumber sample_packet = Inr 2974196833 \<and>
   AckNumber sample_packet = Inr 0 \<and>
   DO sample_packet = Inr 10 \<and>
   RSV sample_packet = Inr 0 \<and>
   Flags sample_packet =
     Inr \<lparr>SYN = False, ACK = False, RST = False, FIN = False, PSH = False, URG = False\<rparr> \<and>
   Window sample_packet = Inr 64240 \<and>
   Checksum sample_packet = Inr 39866 \<and>
   UrgentPointer sample_packet = Inr 0"
  by (simp add: SourcePort_header DestinationPort_header SequenceNumber_header
      AckNumber_header Window_header Checksum_header UrgentPointer_header
      DO_sample RSV_sample Flags_sample elems_sample sample_bytes_def)

section \<open>The big-endian fields\<close>

text \<open>
  Claim C8: on every buffer of at least 20 bytes, \<open>SourcePort\<close>, \<open>DestinationPort\<close>,
  \<open>Window\<close>, \<open>Checksum\<close> and \<open>UrgentPointer\<close> return the unsigned big-endian value of the
  bytes \<open>[0,2)\<close>, \<open>[2,4)\<close>, \<open>[14,16)\<close>, \<open>[16,18)\<close> and \<open>[18,20)\<close>, and \<open>SequenceNumber\<close> and
  \<open>AckNumber\<close> that of the bytes \<open>[4,8)\<close> and \<open>[8,12)\<close>.
\<close>

theorem big_endian_fields:
  assumes "20 \<le> len (Header p)"
  shows
    "(\<exists>w. SourcePort p = Inr w \<and>
          unat w = big_endian (byte_range (elems (Header p)) 0 2)) \<and>
     (\<exists>w. DestinationPort p = Inr w \<and>
          unat w = big_endian (byte_range (elems (Header p)) 2 4)) \<and>
     (\<exists>w. Window p = Inr w \<and>
          unat w = big_endian (byte_range (elems (Header p)) 14 16)) \<and>
     (\<exists>w. Checksum p = Inr w \<and>
          unat w = big_endian (byte_range (elems (Header p)) 16 18)) \<and>
     (\<exists>w. UrgentPointer p = Inr w \<and>
          unat w = big_endian (byte_range (elems (Header p)) 18 20)) \<and>
     (\<exists>w. SequenceNumber p = Inr w \<and>
          unat w = big_endian (byte_range (elems (Header p)) 4 8)) \<and>
     (\<exists>w. AckNumber p = Inr w \<and>
          unat w = big_endian (byte_range (elems (Header p)) 8 12))"
proof -
  have l: "20 \<le> length (elems (Header p))"
    using assms by (simp add: len_def)
  have "\<exists>w. SourcePort p = Inr w \<and>
          unat w = big_endian (byte_range (elems (Header p)) 0 2)"
    unfolding SourcePort_def using l by (intro Uint16_big_endian) simp_all
  moreover
  have "\<exists>w. DestinationPort p = Inr w \<and>
          unat w = big_endian (byte_range (elems (Header p)) 2 4)"
    unfolding DestinationPort_def using l by (intro Uint16_big_endian) simp_all
  moreover
  have "\<exists>w. Window p = Inr w \<and>
          unat w = big_endian (byte_range (elems (Header p)) 14 16)"
    unfolding Window_def using l by (intro Uint16_big_endian) simp_all
  moreover
  have "\<exists>w. Checksum p = Inr w \<and>
          unat w = big_endian (byte_range (elems (Header p)) 16 18)"
    unfolding Checksum_def using l by (intro Uint16_big_endian) simp_all
  moreover
  have "\<exists>w. UrgentPointer p = Inr w \<and>
          unat w = big_endian (byte_range (elems (Header p)) 18 20)"
    unfolding UrgentPointer_def using l by (intro Uint16_big_endian) simp_all
  moreover
  have "\<exists>w. SequenceNumber p = Inr w \<and>
          unat w = big_endian (byte_range (elems (Header p)) 4 8)"
    unfolding SequenceNumber_def using l by (intro Uint32_big_endian) simp_all
  moreover
  have "\<exists>w. AckNumber p = Inr w \<and>
          unat w = big_endian (byte_range (elems (Header p)) 8 12)"
    unfolding AckNumber_def using l by (intro Uint32_big_endian) simp_all
  ultimately show ?thesis
    by (intro conjI)
qed

text \<open>The theorem at the sample header.\<close>

theorem big_endian_fields_sample:
  "20 \<le> len (Header sample_packet) \<and>
   (\<exists>w. SourcePort sample_packet = Inr w \<and> unat w = 46926) \<and>
   (\<exists>w. DestinationPort sample_packet = Inr w \<and> unat w = 443) \<and>
   (\<exists>w. Window sample_packet = Inr w \<and> unat w = 64240) \<and>
   (\<exists>w. Checksum sample_packet = Inr w \<and> unat w = 39866) \<and>
   (\<exists>w. UrgentPointer sample_packet = Inr w \<and> unat w = 0) \<and>
   (\<exists>w. SequenceNumber sample_packet = Inr w \<and> unat w = 2974196833) \<and>
   (\<exists>w. AckNumber sample_packet = Inr w \<and> unat w = 0)"
proof -
  have h: "20 \<le> len (Header sample_packet)"
    by simp
  have "big_endian (byte_range sample_bytes 0 2) = 46926"
    "big_endian (byte_range sample_bytes 2 4) = 443"
    "big_endian (byte_range sample_bytes 14 16) = 64240"
    "big_endian (byte_range sample_bytes 16 18) = 39866"
    "big_endian (byte_range sample_bytes 18 20) = 0"
    "big_endian (byte_range sample_bytes 4 8) = 2974196833"
    "big_endian (byte_range sample_bytes 8 12) = 0"
    by (simp_all add: byte_range_def sample_bytes_def big_endian_def)
  then show ?thesis
    using h big_endian_fields [OF h] by (simp add: elems_sample)
qed

section \<open>The bit fields of bytes 12 and 13\<close>

text \<open>
  \<open>DO\<close>, \<open>RSV\<close> and \<open>Flags\<close> take characters at fixed positions out of the binary text of
  byte 12, as if the text always had eight characters. The verbs \<open>%b\<close> and \<open>%.1b\<close> print
  no leading zeros, so the text has eight characters only when the top bit of the byte
  is set (\<open>DO_top_bit_set\<close>, \<open>RSV_top_bit_set\<close>, \<open>Flags_top_bit_set\<close> above). Byte 13 is
  printed with \<open>%.8b\<close>, which pads to eight characters. The packets below have the top
  bit of byte 12 clear, as every header with a data offset of 7 or less has: there the
  six claims about the bit fields fail, all from this one formatting slip.
\<close>

text \<open>
  Claim C2: on every buffer of at least 20 bytes \<open>DO\<close> returns the top four bits of
  byte 12. On a header without options byte 12 is \<open>0x50\<close>, whose top four bits are 5;
  its text is \<open>1010000\<close>, seven characters, and \<open>DO\<close> parses the first four and
  returns 10.
\<close>

theorem DO_on_header_without_options:
  "DO (header_with 0x50 0x10) = Inr 10 \<and> spec_DataOffset 0x50 = 5"
  by (simp add: DO_80 spec_DataOffset_def drop_bit_eq_div)

text \<open>
  Claim C3: on every buffer of at least 20 bytes \<open>RSV\<close> returns the bits 4, 5 and 6 of
  byte 12, counted from the most significant bit. For byte 12 = \<open>0x51\<close> these bits are
  zero; the text is \<open>1010001\<close> and \<open>RSV\<close> parses its last three characters, the bits 5,
  6 and 7, and returns 1.
\<close>

theorem RSV_on_byte_0x51:
  "RSV (header_with 0x51 0x10) = Inr 1 \<and> spec_Reserved 0x51 = 0"
  by (simp add: RSV_header Sprintf_b_81 substr_def ParseInt_001 spec_Reserved_def
      drop_bit_eq_div take_bit_eq_mod)

text \<open>
  Claim C4: on every buffer of at least 20 bytes the flag SYN is true exactly when
  the least significant bit of byte 12 is 1, so for byte 12 = \<open>0x01\<close> it is true. For
  that byte the text is \<open>1\<close> and \<open>Flags\<close> stops with a panic in \<open>fg1[7:8]\<close>.
\<close>

theorem Flags_on_byte_0x01:
  "Flags (header_with 0x01 0x00) = Inl SliceBoundsOutOfRange \<and> msb_bit 0x01 7"
  by (simp add: Flags_top_bit_clear msb_bit_def)

text \<open>
  Claim C5: on every buffer of at least 20 bytes \<open>Flags\<close> sets ACK, RST, FIN, PSH and URG
  from the bits 0 to 4 of byte 13, so byte 13 = \<open>0xF8\<close> gives all five true. With
  byte 12 = \<open>0x50\<close> and byte 13 = \<open>0xF8\<close> the call stops with the panic of \<open>fg1[7:8]\<close>
  before any flag is returned.
\<close>

theorem Flags_on_bytes_0x50_0xF8:
  "Flags (header_with 0x50 0xF8) = Inl SliceBoundsOutOfRange \<and>
   msb_bit 0xF8 0 \<and> msb_bit 0xF8 1 \<and> msb_bit 0xF8 2 \<and> msb_bit 0xF8 3 \<and> msb_bit 0xF8 4"
  by (simp add: Flags_top_bit_clear msb_bit_byte)

text \<open>
  Claim C6: packing a data offset in 0..15, a reserved value in 0..7 and six flags into
  bytes 12 and 13 by the documented layout and decoding with \<open>DO\<close>, \<open>RSV\<close> and \<open>Flags\<close>
  gives the original values back. For data offset 5, reserved 0 and no flag the packed
  bytes are \<open>0x50\<close> and \<open>0x00\<close>: \<open>DO\<close> returns 10 and \<open>Flags\<close> stops with a panic.
\<close>

theorem round_trip_on_data_offset_5:
  "pack_byte12 5 0 False = 0x50 \<and> pack_byte13 False False False False False = 0x00 \<and>
   DO (header_with (pack_byte12 5 0 False) (pack_byte13 False False False False False))
     = Inr 10 \<and>
   Flags (header_with (pack_byte12 5 0 False) (pack_byte13 False False False False False))
     = Inl SliceBoundsOutOfRange"
  by (simp add: pack_byte12_def pack_byte13_def DO_80 Flags_top_bit_clear)

text \<open>
  Claim C7: on every buffer of at least 20 bytes \<open>DO\<close> returns a value in 0..15 and
  \<open>RSV\<close> a value in 0..7, and neither can abort. On a buffer of 20 zero bytes the text of
  byte 12 is \<open>0\<close>, and both stop with a panic, in \<open>do[0:4]\<close> and in \<open>rs[4:7]\<close>.
\<close>

theorem DO_and_RSV_on_zero_buffer:
  "len (Header zero_packet) = 20 \<and>
   DO zero_packet = Inl SliceBoundsOutOfRange \<and>
   RSV zero_packet = Inl SliceBoundsOutOfRange"
  by (simp add: DO_below_8 RSV_below_64)

section \<open>Nothing beyond byte 19 is read\<close>

lemma nth_agree:
  assumes "take 20 xs = take 20 ys" "i < 20"
  shows "xs ! i = ys ! i"
proof -
  have "xs ! i = take 20 xs ! i" "ys ! i = take 20 ys ! i"
    using assms(2) by simp_all
  then show ?thesis
    by (simp add: assms(1))
qed

text \<open>
  Claim C10: on a buffer of at least 20 bytes no accessor reads a byte at an index
  greater than 19. Two buffers of at least 20 bytes that agree on their first 20 bytes,
  whatever follows and whatever spare capacity they have, give the same result (the same
  value or the same panic) through every accessor.
\<close>

theorem accessors_read_header_only:
  assumes "20 \<le> len (Header p)" and "20 \<le> len (Header q)"
    and "take 20 (elems (Header p)) = take 20 (elems (Header q))"
  shows "SourcePort p = SourcePort q \<and> DestinationPort p = DestinationPort q \<and>
         SequenceNumber p = SequenceNumber q \<and> AckNumber p = AckNumber q \<and>
         DO p = DO q \<and> RSV p = RSV q \<and> Flags p = Flags q \<and>
         Window p = Window q \<and> Checksum p = Checksum q \<and>
         UrgentPointer p = UrgentPointer q"
proof -
  have e: "elems (Header p) ! i = elems (Header q) ! i" if "i < 20" for i
    using assms(3) that by (rule nth_agree)
  have "SourcePort p = SourcePort q"
    by (simp add: SourcePort_header assms e)
  moreover have "DestinationPort p = DestinationPort q"
    by (simp add: DestinationPort_header assms e)
  moreover have "SequenceNumber p = SequenceNumber q"
    by (simp add: SequenceNumber_header assms e)
  moreover have "AckNumber p = AckNumber q"
    by (simp add: AckNumber_header assms e)
  moreover have "DO p = DO q"
    by (simp add: DO_header assms e)
  moreover have "RSV p = RSV q"
    by (simp add: RSV_header assms e)
  moreover have "Flags p = Flags q"
    by (simp add: Flags_header assms e)
  moreover have "Window p = Window q"
    by (simp add: Window_header assms e)
  moreover have "Checksum p = Checksum q"
    by (simp add: Checksum_header assms e)
  moreover have "UrgentPointer p = UrgentPointer q"
    by (simp add: UrgentPointer_header assms e)
  ultimately show ?thesis
    by (intro conjI)
qed

text \<open>The theorem at the sample header and the sample header followed by an option.\<close>

theorem accessors_read_header_only_sample:
  "20 \<le> len (Header sample_packet) \<and> 20 \<le> len (Header long_packet) \<and>
   take 20 (elems (Header sample_packet)) = take 20 (elems (Header long_packet)) \<and>
   elems (Header sample_packet) \<noteq> elems (Header long_packet) \<and>
   SourcePort sample_packet = SourcePort long_packet \<and>
   DestinationPort sample_packet = DestinationPort long_packet \<and>
   SequenceNumber sample_packet = SequenceNumber long_packet \<and>
   AckNumber sample_packet = AckNumber long_packet \<and>
   DO sample_packet = DO long_packet \<and> RSV sample_packet = RSV long_packet \<and>
   Flags sample_packet = Flags long_packet \<and>
   Window sample_packet = Window long_packet \<and>
   Checksum sample_packet = Checksum long_packet \<and>
   UrgentPointer sample_packet = UrgentPointer long_packet"
proof -
  have h1: "20 \<le> len (Header sample_packet)"
    by simp
  have h2: "20 \<le> len (Header long_packet)"
    by (simp add: long_packet_def packet_of_def len_def sample_bytes_def)
  have h3: "take 20 (elems (Header sample_packet)) = take 20 (elems (Header long_packet))"
    by (simp add: long_packet_def sample_packet_def packet_of_def sample_bytes_def)
  have h4: "elems (Header sample_packet) \<noteq> elems (Header long_packet)"
    by (simp add: long_packet_def sample_packet_def packet_of_def)
  show ?thesis
    using h1 h2 h3 h4 accessors_read_header_only [OF h1 h2 h3]
    by simp
qed

section \<open>Buffers shorter than the header\<close>

text \<open>
  The code checks no length: \<open>Packet\<close> is built by a composite literal, and every
  accessor reslices the header at once. What stops an accessor on a short buffer is the
  bounds check of the Go runtime, and only when the slice expression reaches beyond the
  capacity of the buffer.
\<close>

lemma Uint16_returns:
  assumes "hi = lo + 2" "hi \<le> len s"
  shows "\<exists>w. and_then (reslice s lo hi) Uint16 = Inr w"
  using assms by (simp add: Uint16_reslice len_def)

lemma Uint32_returns:
  assumes "hi = lo + 4" "hi \<le> len s"
  shows "\<exists>w. and_then (reslice s lo hi) Uint32 = Inr w"
  using assms by (simp add: Uint32_reslice len_def)

lemma reslice_panics:
  assumes "spare s = []" "len s < hi"
  shows "and_then (reslice s lo hi) f = Inl SliceBoundsOutOfRange"
  using assms by (simp add: reslice_beyond_capacity len_def)

lemma len_short [simp]: "len (Header short_packet) = 19"
  by (simp add: short_packet_def packet_of_def sample_bytes_def len_def)

lemma len_tiny [simp]: "len (Header tiny_packet) = 1"
  by (simp add: tiny_packet_def packet_of_def len_def)

text \<open>
  Claim C9 says that a buffer of 19 or fewer bytes fails to decode with an explicit,
  recoverable BufferTooShort error, not a crash. On the first 19 bytes of the sample
  header \<open>SourcePort\<close> returns 46926 as if nothing were missing, and \<open>UrgentPointer\<close>
  stops with the runtime panic of the slice expression \<open>Header[18:20]\<close>; the code has no
  error value at all.
\<close>

theorem short_packet_is_not_rejected:
  "len (Header short_packet) = 19 \<and>
   SourcePort short_packet = Inr 46926 \<and>
   UrgentPointer short_packet = Inl SliceBoundsOutOfRange"
proof -
  have "SourcePort short_packet = Inr 46926"
    using Uint16_reslice [of 2 0 "Header short_packet"]
    by (simp add: SourcePort_def short_packet_def packet_of_def sample_bytes_def)
  moreover have "UrgentPointer short_packet = Inl SliceBoundsOutOfRange"
    unfolding UrgentPointer_def
    by (rule reslice_panics) (simp add: short_packet_def packet_of_def, simp)
  ultimately show ?thesis
    by simp
qed

text \<open>
  Claim C9, amended. A buffer \<open>p\<close> of exactly 20 bytes decodes successfully through
  \<open>SourcePort\<close>, \<open>DestinationPort\<close>, \<open>SequenceNumber\<close>, \<open>AckNumber\<close>, \<open>Window\<close>, \<open>Checksum\<close>
  and \<open>UrgentPointer\<close>, and through \<open>DO\<close>, \<open>RSV\<close> and \<open>Flags\<close> as well when the top bit of
  byte 12 is set. On a buffer \<open>q\<close> of 19 or fewer bytes with no spare capacity there
  is no BufferTooShort error: each integer accessor returns when the buffer holds the
  whole of its byte range and stops with the panic \<open>SliceBoundsOutOfRange\<close> otherwise, as
  \<open>UrgentPointer\<close> always does, and as \<open>DO\<close>, \<open>RSV\<close> and \<open>Flags\<close> do below 14 bytes.
\<close>

theorem accessors_without_length_check:
  assumes "len (Header p) = 20" and "len (Header q) \<le> 19" and "spare (Header q) = []"
  shows
    "(\<exists>w. SourcePort p = Inr w) \<and> (\<exists>w. DestinationPort p = Inr w) \<and>
     (\<exists>w. SequenceNumber p = Inr w) \<and> (\<exists>w. AckNumber p = Inr w) \<and>
     (\<exists>w. Window p = Inr w) \<and> (\<exists>w. Checksum p = Inr w) \<and>
     (\<exists>w. UrgentPointer p = Inr w) \<and>
     (128 \<le> unat (elems (Header p) ! 12) \<longrightarrow>
        (\<exists>d. DO p = Inr d) \<and> (\<exists>r. RSV p = Inr r) \<and> (\<exists>f. Flags p = Inr f)) \<and>
     UrgentPointer q = Inl SliceBoundsOutOfRange \<and>
     (2 \<le> len (Header q) \<longrightarrow> (\<exists>w. SourcePort q = Inr w)) \<and>
     (len (Header q) < 2 \<longrightarrow> SourcePort q = Inl SliceBoundsOutOfRange) \<and>
     (4 \<le> len (Header q) \<longrightarrow> (\<exists>w. DestinationPort q = Inr w)) \<and>
     (len (Header q) < 4 \<longrightarrow> DestinationPort q = Inl SliceBoundsOutOfRange) \<and>
     (8 \<le> len (Header q) \<longrightarrow> (\<exists>w. SequenceNumber q = Inr w)) \<and>
     (len (Header q) < 8 \<longrightarrow> SequenceNumber q = Inl SliceBoundsOutOfRange) \<and>
     (12 \<le> len (Header q) \<longrightarrow> (\<exists>w. AckNumber q = Inr w)) \<and>
     (len (Header q) < 12 \<longrightarrow> AckNumber q = Inl SliceBoundsOutOfRange) \<and>
     (16 \<le> len (Header q) \<longrightarrow> (\<exists>w. Window q = Inr w)) \<and>
     (len (Header q) < 16 \<longrightarrow> Window q = Inl SliceBoundsOutOfRange) \<and>
     (18 \<le> len (Header q) \<longrightarrow> (\<exists>w. Checksum q = Inr w)) \<and>
     (len (Header q) < 18 \<longrightarrow> Checksum q = Inl SliceBoundsOutOfRange) \<and>
     (len (Header q) < 14 \<longrightarrow>
        DO q = Inl SliceBoundsOutOfRange \<and> RSV q = Inl SliceBoundsOutOfRange \<and>
        Flags q = Inl SliceBoundsOutOfRange)"
proof (intro conjI)
  have p: "20 \<le> len (Header p)"
    using assms(1) by simp
  note s = assms(3)
  show "\<exists>w. SourcePort p = Inr w"
    by (simp add: SourcePort_header p)
  show "\<exists>w. DestinationPort p = Inr w"
    by (simp add: DestinationPort_header p)
  show "\<exists>w. SequenceNumber p = Inr w"
    by (simp add: SequenceNumber_header p)
  show "\<exists>w. AckNumber p = Inr w"
    by (simp add: AckNumber_header p)
  show "\<exists>w. Window p = Inr w"
    by (simp add: Window_header p)
  show "\<exists>w. Checksum p = Inr w"
    by (simp add: Checksum_header p)
  show "\<exists>w. UrgentPointer p = Inr w"
    by (simp add: UrgentPointer_header p)
  show "128 \<le> unat (elems (Header p) ! 12) \<longrightarrow>
        (\<exists>d. DO p = Inr d) \<and> (\<exists>r. RSV p = Inr r) \<and> (\<exists>f. Flags p = Inr f)"
    using p by (simp add: DO_top_bit_set RSV_top_bit_set Flags_top_bit_set)
  show "UrgentPointer q = Inl SliceBoundsOutOfRange"
    unfolding UrgentPointer_def using s assms(2) by (intro reslice_panics) simp_all
  show "2 \<le> len (Header q) \<longrightarrow> (\<exists>w. SourcePort q = Inr w)"
    unfolding SourcePort_def by (intro impI Uint16_returns) simp_all
  show "len (Header q) < 2 \<longrightarrow> SourcePort q = Inl SliceBoundsOutOfRange"
    unfolding SourcePort_def using s by (intro impI reslice_panics)
  show "4 \<le> len (Header q) \<longrightarrow> (\<exists>w. DestinationPort q = Inr w)"
    unfolding DestinationPort_def by (intro impI Uint16_returns) simp_all
  show "len (Header q) < 4 \<longrightarrow> DestinationPort q = Inl SliceBoundsOutOfRange"
    unfolding DestinationPort_def using s by (intro impI reslice_panics)
  show "8 \<le> len (Header q) \<longrightarrow> (\<exists>w. SequenceNumber q = Inr w)"
    unfolding SequenceNumber_def by (intro impI Uint32_returns) simp_all
  show "len (Header q) < 8 \<longrightarrow> SequenceNumber q = Inl SliceBoundsOutOfRange"
    unfolding SequenceNumber_def using s by (intro impI reslice_panics)
  show "12 \<le> len (Header q) \<longrightarrow> (\<exists>w. AckNumber q = Inr w)"
    unfolding AckNumber_def by (intro impI Uint32_returns) simp_all
  show "len (Header q) < 12 \<longrightarrow> AckNumber q = Inl SliceBoundsOutOfRange"
    unfolding AckNumber_def using s by (intro impI reslice_panics)
  show "16 \<le> len (Header q) \<longrightarrow> (\<exists>w. Window q = Inr w)"
    unfolding Window_def by (intro impI Uint16_returns) simp_all
  show "len (Header q) < 16 \<longrightarrow> Window q = Inl SliceBoundsOutOfRange"
    unfolding Window_def using s by (intro impI reslice_panics)
  show "18 \<le> len (Header q) \<longrightarrow> (\<exists>w. Checksum q = Inr w)"
    unfolding Checksum_def by (intro impI Uint16_returns) simp_all
  show "len (Header q) < 18 \<longrightarrow> Checksum q = Inl SliceBoundsOutOfRange"
    unfolding Checksum_def using s by (intro impI reslice_panics)
  show "len (Header q) < 14 \<longrightarrow>
        DO q = Inl SliceBoundsOutOfRange \<and> RSV q = Inl SliceBoundsOutOfRange \<and>
        Flags q = Inl SliceBoundsOutOfRange"
    unfolding DO_def RSV_def Flags_def using s by (simp add: reslice_panics)
qed

text \<open>
  The theorem at the sample header for \<open>p\<close>, and at its first 19 bytes and at a buffer
  of one byte for \<open>q\<close>.
\<close>

theorem accessors_without_length_check_sample:
  "len (Header sample_packet) = 20 \<and>
   len (Header short_packet) \<le> 19 \<and> spare (Header short_packet) = [] \<and>
   len (Header tiny_packet) \<le> 19 \<and> spare (Header tiny_packet) = [] \<and>
   128 \<le> unat (elems (Header sample_packet) ! 12) \<and>
   (\<exists>w. SourcePort sample_packet = Inr w) \<and> (\<exists>w. UrgentPointer sample_packet = Inr w) \<and>
   (\<exists>d. DO sample_packet = Inr d) \<and> (\<exists>r. RSV sample_packet = Inr r) \<and>
   (\<exists>f. Flags sample_packet = Inr f) \<and>
   UrgentPointer short_packet = Inl SliceBoundsOutOfRange \<and>
   (\<exists>w. SourcePort short_packet = Inr w) \<and> (\<exists>w. DestinationPort short_packet = Inr w) \<and>
   (\<exists>w. SequenceNumber short_packet = Inr w) \<and> (\<exists>w. AckNumber short_packet = Inr w) \<and>
   (\<exists>w. Window short_packet = Inr w) \<and> (\<exists>w. Checksum short_packet = Inr w) \<and>
   SourcePort tiny_packet = Inl SliceBoundsOutOfRange \<and>
   DestinationPort tiny_packet = Inl SliceBoundsOutOfRange \<and>
   SequenceNumber tiny_packet = Inl SliceBoundsOutOfRange \<and>
   AckNumber tiny_packet = Inl SliceBoundsOutOfRange \<and>
   Window tiny_packet = Inl SliceBoundsOutOfRange \<and>
   Checksum tiny_packet = Inl SliceBoundsOutOfRange \<and>
   DO tiny_packet = Inl SliceBoundsOutOfRange \<and>
   RSV tiny_packet = Inl SliceBoundsOutOfRange \<and>
   Flags tiny_packet = Inl SliceBoundsOutOfRange"
proof -
  have h1: "len (Header sample_packet) = 20"
    by simp
  have h2: "len (Header short_packet) \<le> 19"
    by simp
  have h3: "spare (Header short_packet) = []"
    by (simp add: short_packet_def packet_of_def)
  have h4: "len (Header tiny_packet) \<le> 19"
    by simp
  have h5: "spare (Header tiny_packet) = []"
    by (simp add: tiny_packet_def packet_of_def)
  have h6: "128 \<le> unat (elems (Header sample_packet) ! 12)"
    by (simp add: elems_sample sample_bytes_def)
  note short = accessors_without_length_check [OF h1 h2 h3]
  note tiny = accessors_without_length_check [OF h1 h4 h5]
  show ?thesis
    by (simp add: h3 h5 h6 short tiny)
qed

end
